theory Spec2Isabelle
  imports Main "HOL-Library.FSet" "HOL-Library.Char_ord" "HOL-Library.List_Lexorder"
begin

section \<open>Strings: the character classes used by the engine\<close>

text \<open>
  A Python \<open>str\<close> is modelled as a \<open>string\<close>; a \<open>char\<close> stands for the code
  point of the same number, so the model covers text over U+0000 .. U+00FF. The three
  character-level operations of the source are \<open>str.lower\<close>, the class \<open>\w\<close> of the
  \<open>re\<close> module (for \<open>str\<close> patterns: alphanumeric code points and the underscore)
  and the whitespace that \<open>str.strip\<close> removes.
\<close>

definition is_word_char :: "char \<Rightarrow> bool" where
  "is_word_char c =
     (let n = (of_char c :: nat) in
        (48 \<le> n \<and> n \<le> 57) \<or> (65 \<le> n \<and> n \<le> 90) \<or> n = 95 \<or> (97 \<le> n \<and> n \<le> 122) \<or>
        n = 170 \<or> n = 178 \<or> n = 179 \<or> n = 181 \<or> n = 185 \<or> n = 186 \<or>
        (188 \<le> n \<and> n \<le> 190) \<or> (192 \<le> n \<and> n \<le> 214) \<or> (216 \<le> n \<and> n \<le> 246) \<or>
        248 \<le> n)"

definition is_space :: "char \<Rightarrow> bool" where
  "is_space c =
     (let n = (of_char c :: nat) in
        (9 \<le> n \<and> n \<le> 13) \<or> (28 \<le> n \<and> n \<le> 32) \<or> n = 133 \<or> n = 160)"

definition lower_char :: "char \<Rightarrow> char" where
  "lower_char c =
     (let n = (of_char c :: nat) in
        if (65 \<le> n \<and> n \<le> 90) \<or> (192 \<le> n \<and> n \<le> 214) \<or> (216 \<le> n \<and> n \<le> 222)
        then char_of (n + 32) else c)"

definition lower :: "string \<Rightarrow> string" where
  "lower s = map lower_char s"

definition strip :: "string \<Rightarrow> string" where
  "strip s = rev (dropWhile is_space (rev (dropWhile is_space s)))"

text \<open>
  \<open>re.findall(r"\b\w+\b", s)\<close>: the scan goes left to right; a match can only start at
  a word boundary, \<open>\w+\<close> is greedy and the end of a maximal run is a boundary, so the
  matches are the maximal runs of word characters, in order. \<open>run\<close> holds the current
  run, reversed.
\<close>

fun findall_from :: "string \<Rightarrow> string \<Rightarrow> string list" where
  "findall_from run [] = (if run = [] then [] else [rev run])"
| "findall_from run (c # cs) =
     (if is_word_char c then findall_from (c # run) cs
      else if run = [] then findall_from [] cs
      else rev run # findall_from [] cs)"

definition findall_words :: "string \<Rightarrow> string list" where
  "findall_words s = findall_from [] s"

section \<open>The engine state\<close>

text \<open>
  \<open>SearchEngine.__init__\<close>: the inverted index is a \<open>defaultdict(set)\<close>, the
  term-frequency table a \<open>defaultdict(Counter)\<close>. A dict is a map, a Python set a
  finite set. The Counters stored in the table are never iterated, so they are maps too.
\<close>

record engine =
  webpages_dir :: string
  inverted_index :: "string \<rightharpoonup> string fset"
  term_frequency :: "string \<rightharpoonup> (string \<rightharpoonup> nat)"
  stopwords :: "string fset"
  documents :: "string list"
  document_urls :: "string \<rightharpoonup> string"

definition load_stopwords :: "string fset" where
  "load_stopwords = fset_of_list
     [''a'', ''an'', ''the'', ''and'', ''or'', ''but'', ''is'', ''are'', ''was'', ''were'',
      ''in'', ''on'', ''at'', ''to'', ''for'', ''with'', ''by'', ''about'', ''like'',
      ''from'', ''of'', ''as'', ''this'', ''that'', ''these'', ''those'', ''it'', ''its'']"

text \<open>
  The constructor. Reading \<open>webpages/input.txt\<close> is outside the model: \<open>urls\<close> is
  the mapping that \<open>_load_url_mapping\<close> leaves in \<open>document_urls\<close>.
\<close>

definition init :: "string \<Rightarrow> (string \<rightharpoonup> string) \<Rightarrow> engine" where
  "init dir urls =
     \<lparr>webpages_dir = dir, inverted_index = Map.empty, term_frequency = Map.empty,
      stopwords = load_stopwords, documents = [], document_urls = urls\<rparr>"

text \<open>
  \<open>d[k]\<close> on a \<open>defaultdict\<close>: a missing key is inserted with the default value, and
  the dict changes. The result is the dict after the access and the value read.
  \<open>k in d\<close> is \<open>k \<in> dom d\<close> and inserts nothing.
\<close>

definition dd_getitem :: "'v \<Rightarrow> ('k \<rightharpoonup> 'v) \<Rightarrow> 'k \<Rightarrow> ('k \<rightharpoonup> 'v) \<times> 'v" where
  "dd_getitem dflt d k = (case d k of Some v \<Rightarrow> (d, v) | None \<Rightarrow> (d(k \<mapsto> dflt), dflt))"

text \<open>\<open>c[k]\<close> on a \<open>Counter\<close>: a missing key reads as 0 and is not inserted.\<close>

definition counter_getitem :: "(string \<rightharpoonup> nat) \<Rightarrow> string \<Rightarrow> nat" where
  "counter_getitem c k = (case c k of Some n \<Rightarrow> n | None \<Rightarrow> 0)"

section \<open>Indexing\<close>

text \<open>
  \<open>Counter(filtered_tokens)\<close>: the local tally of one document. It is iterated by
  the indexing loop, in insertion order (the order of first occurrence), so it is an
  association list.
\<close>

fun tally_add :: "(string \<times> nat) list \<Rightarrow> string \<Rightarrow> (string \<times> nat) list" where
  "tally_add [] t = [(t, 1)]"
| "tally_add ((k, n) # kvs) t =
     (if k = t then (k, n + 1) # kvs else (k, n) # tally_add kvs t)"

definition Counter :: "string list \<Rightarrow> (string \<times> nat) list" where
  "Counter ts = foldl tally_add [] ts"

definition tally_getitem :: "(string \<times> nat) list \<Rightarrow> string \<Rightarrow> nat" where
  "tally_getitem kvs k = (case map_of kvs k of Some n \<Rightarrow> n | None \<Rightarrow> 0)"

text \<open>Lines 64 to 69: the token stream of a document's text.\<close>

definition filtered_tokens :: "engine \<Rightarrow> string \<Rightarrow> string list" where
  "filtered_tokens e text =
     (let tokens = findall_words (lower text)
      in [token \<leftarrow> tokens. token |\<notin>| stopwords e \<and> length token > 1])"

text \<open>
  The body of the loop of lines 73 to 75 for one token:
  \<open>self.inverted_index[token].add(filename)\<close> and
  \<open>self.term_frequency[token][filename] = term_counts[token]\<close>.
\<close>

definition index_token :: "string \<Rightarrow> (string \<times> nat) list \<Rightarrow> engine \<Rightarrow> string \<Rightarrow> engine" where
  "index_token filename term_counts e token =
     (case dd_getitem {||} (inverted_index e) token of (ix, docs) \<Rightarrow>
      case dd_getitem Map.empty (term_frequency e) token of (tf, counts) \<Rightarrow>
        e\<lparr>inverted_index := ix(token \<mapsto> finsert filename docs),
          term_frequency := tf(token \<mapsto> counts(filename \<mapsto> tally_getitem term_counts token))\<rparr>)"

text \<open>
  \<open>parse_document\<close>. Opening the file and extracting its text with BeautifulSoup are
  outside the model: \<open>extracted\<close> is \<open>Some\<close> of the text of \<open>soup.get_text()\<close>, or
  \<open>None\<close> when reading or parsing raises, which the \<open>except\<close> clause turns into the
  result \<open>False\<close> with the engine untouched. The progress lines it prints are left out.
\<close>

definition parse_document :: "engine \<Rightarrow> string \<Rightarrow> string option \<Rightarrow> engine \<times> bool" where
  "parse_document e filename extracted =
     (case extracted of
        None \<Rightarrow> (e, False)
      | Some text \<Rightarrow>
          (let term_counts = Counter (filtered_tokens e text)
           in (foldl (index_token filename term_counts) e (map fst term_counts), True)))"

text \<open>A sequence of \<open>parse_document\<close> calls, each with a file name and what was read.\<close>

definition parse_documents :: "engine \<Rightarrow> (string \<times> string option) list \<Rightarrow> engine" where
  "parse_documents e calls = foldl (\<lambda>e (filename, extracted). fst (parse_document e filename extracted)) e calls"

section \<open>Searching\<close>

definition msg_empty_query :: string where
  "msg_empty_query = ''Empty query. Please enter some search terms.''"

definition msg_only_stopwords :: string where
  "msg_only_stopwords = ''Query contains only stopwords. Please use more specific terms.''"

definition msg_term_not_found :: "string \<Rightarrow> string" where
  "msg_term_not_found term = ''Term '' @ [CHR 0x27] @ term @ [CHR 0x27] @ '' not found in any document.''"

definition msg_no_documents :: string where
  "msg_no_documents = ''No documents found matching all query terms.''"

text \<open>Lines 102 and 103: the terms of a query.\<close>

definition filtered_terms :: "engine \<Rightarrow> string \<Rightarrow> string list" where
  "filtered_terms e query =
     (let terms = findall_words (lower query)
      in [t \<leftarrow> terms. t |\<notin>| stopwords e \<and> length t > 1])"

text \<open>
  What a call of \<open>search\<close> leaves behind: the engine after the call, the lines printed
  and the list returned.
\<close>

record search_outcome =
  state_after :: engine
  printed :: "string list"
  returned :: "(string \<times> nat) list"

text \<open>
  The loop of lines 111 to 119 over the remaining terms. \<open>matching_docs\<close> is \<open>None\<close>
  before the first term; \<open>.copy()\<close> makes it a set of its own, so \<open>&=\<close> changes only
  that copy. The loop ends with \<open>Inl term\<close> at the \<open>return []\<close> of line 119.
\<close>

fun match_loop :: "engine \<Rightarrow> string fset option \<Rightarrow> string list \<Rightarrow> engine \<times> (string + string fset option)" where
  "match_loop e matching_docs [] = (e, Inr matching_docs)"
| "match_loop e matching_docs (term # terms) =
     (if term \<in> dom (inverted_index e) then
        (case dd_getitem {||} (inverted_index e) term of (ix, docs) \<Rightarrow>
           (case matching_docs of
              None \<Rightarrow> match_loop (e\<lparr>inverted_index := ix\<rparr>) (Some docs) terms
            | Some md \<Rightarrow> match_loop (e\<lparr>inverted_index := ix\<rparr>) (Some (md |\<inter>| docs)) terms))
      else (e, Inl term))"

text \<open>
  The generator summed in lines 127 to 129, for one document: the terms are taken in
  order, a term that is a key of the table contributes its Counter's entry.
\<close>

fun score_loop :: "engine \<Rightarrow> string \<Rightarrow> string list \<Rightarrow> engine \<times> nat" where
  "score_loop e doc [] = (e, 0)"
| "score_loop e doc (term # terms) =
     (if term \<in> dom (term_frequency e) then
        (case dd_getitem Map.empty (term_frequency e) term of (tf, counts) \<Rightarrow>
           (case score_loop (e\<lparr>term_frequency := tf\<rparr>) doc terms of (e', rest) \<Rightarrow>
              (e', counter_getitem counts doc + rest)))
      else score_loop e doc terms)"

text \<open>The loop of lines 126 to 130 over the documents, in the order they are iterated.\<close>

fun rank_loop :: "engine \<Rightarrow> string list \<Rightarrow> string list \<Rightarrow> engine \<times> (string \<times> nat) list" where
  "rank_loop e terms [] = (e, [])"
| "rank_loop e terms (doc # docs) =
     (case score_loop e doc terms of (e', score) \<Rightarrow>
        (case rank_loop e' terms docs of (e'', ranked) \<Rightarrow> (e'', (doc, score) # ranked)))"

text \<open>
  \<open>list.sort(key=lambda x: x[1], reverse=True)\<close>: a stable sort in descending order of
  the key; elements with equal keys keep their order.
\<close>

definition sort_by_score :: "(string \<times> nat) list \<Rightarrow> (string \<times> nat) list" where
  "sort_by_score ranked_results = rev (sort_key snd (rev ranked_results))"

text \<open>
  \<open>search\<close>. Python does not fix the order in which a set is iterated: \<open>set_iter\<close> is
  that order, the list in which \<open>for doc in matching_docs\<close> visits a set.
\<close>

definition search :: "(string fset \<Rightarrow> string list) \<Rightarrow> engine \<Rightarrow> string \<Rightarrow> search_outcome" where
  "search set_iter e query =
     (if strip query = [] then
        \<lparr>state_after = e, printed = [msg_empty_query], returned = []\<rparr>
      else if filtered_terms e query = [] then
        \<lparr>state_after = e, printed = [msg_only_stopwords], returned = []\<rparr>
      else
        (case match_loop e None (filtered_terms e query) of
           (e1, Inl term) \<Rightarrow>
             \<lparr>state_after = e1, printed = [msg_term_not_found term], returned = []\<rparr>
         | (e1, Inr None) \<Rightarrow>
             \<lparr>state_after = e1, printed = [msg_no_documents], returned = []\<rparr>
         | (e1, Inr (Some matching_docs)) \<Rightarrow>
             if matching_docs = {||} then
               \<lparr>state_after = e1, printed = [msg_no_documents], returned = []\<rparr>
             else
               (case rank_loop e1 (filtered_terms e query) (set_iter matching_docs) of
                  (e2, ranked_results) \<Rightarrow>
                    \<lparr>state_after = e2, printed = [], returned = sort_by_score ranked_results\<rparr>)))"

text \<open>The iteration of a set visits every element, once.\<close>

definition iterates :: "(string fset \<Rightarrow> string list) \<Rightarrow> bool" where
  "iterates set_iter = (\<forall>s. fset_of_list (set_iter s) = s \<and> distinct (set_iter s))"

section \<open>Views of the two tables\<close>

text \<open>
  The posting set of a term and the count of a term in a document, as the two tables
  hold them; a missing key reads as the empty set and as 0, and nothing is inserted.
\<close>

definition posting :: "engine \<Rightarrow> string \<Rightarrow> string fset" where
  "posting e t = (case inverted_index e t of Some s \<Rightarrow> s | None \<Rightarrow> {||})"

definition counters :: "engine \<Rightarrow> string \<Rightarrow> (string \<rightharpoonup> nat)" where
  "counters e t = (case term_frequency e t of Some c \<Rightarrow> c | None \<Rightarrow> Map.empty)"

definition freq :: "engine \<Rightarrow> string \<Rightarrow> string \<Rightarrow> nat" where
  "freq e t d = (case term_frequency e t of Some c \<Rightarrow> counter_getitem c d | None \<Rightarrow> 0)"

text \<open>
  The two sides of the invariant of the data model: the document is in the posting set
  of the term; the table has a count for the term and the document, and it is positive.
\<close>

definition in_posting :: "engine \<Rightarrow> string \<Rightarrow> string \<Rightarrow> bool" where
  "in_posting e t d = (case inverted_index e t of Some s \<Rightarrow> d |\<in>| s | None \<Rightarrow> False)"

definition has_positive_count :: "engine \<Rightarrow> string \<Rightarrow> string \<Rightarrow> bool" where
  "has_positive_count e t d =
     (case term_frequency e t of
        Some c \<Rightarrow> (case c d of Some n \<Rightarrow> 0 < n | None \<Rightarrow> False)
      | None \<Rightarrow> False)"

text \<open>The three documents of the end-to-end example, indexed by a fresh engine.\<close>

definition example_corpus :: "(string \<times> string option) list" where
  "example_corpus =
     [(''docA'', Some ''cloud security threats''),
      (''docB'', Some ''cyber attack malware''),
      (''docC'', Some ''cloud attack security breach'')]"

definition example_engine :: engine where
  "example_engine = parse_documents (init ''webpages'' Map.empty) example_corpus"

section \<open>The loops of search\<close>

lemma dd_getitem_present: "k \<in> dom d \<Longrightarrow> dd_getitem dflt d k = (d, the (d k))"
  by (auto simp: dd_getitem_def)

lemma match_loop_state: "fst (match_loop e m ts) = e"
  by (induction ts arbitrary: m) (auto simp: dd_getitem_present split: option.splits)

lemma match_loop_absent:
  "\<forall>p\<in>set pre. p \<in> dom (inverted_index e) \<Longrightarrow> t \<notin> dom (inverted_index e) \<Longrightarrow>
   match_loop e m (pre @ t # post) = (e, Inl t)"
  by (induction pre arbitrary: m) (auto simp: dd_getitem_present split: option.splits)

lemma score_loop_eq: "score_loop e doc ts = (e, (\<Sum>t\<leftarrow>ts. freq e t doc))"
  by (induction ts) (auto simp: dd_getitem_present freq_def split: option.splits prod.splits)

lemma rank_loop_eq:
  "rank_loop e ts docs = (e, map (\<lambda>doc. (doc, (\<Sum>t\<leftarrow>ts. freq e t doc))) docs)"
  by (induction docs) (auto simp: score_loop_eq)

lemma sort_by_score_sorted: "sorted_wrt (\<lambda>a b. snd b \<le> snd a) (sort_by_score xs)"
proof -
  have "sorted (map snd (sort_key snd (rev xs)))" by (rule sorted_sort_key)
  then have "sorted_wrt (\<lambda>a b. snd a \<le> snd b) (sort_key snd (rev xs))"
    by (simp add: sorted_map)
  then show ?thesis
    by (simp add: sort_by_score_def sorted_wrt_rev)
qed

lemma set_sort_by_score: "set (sort_by_score xs) = set xs"
  by (simp add: sort_by_score_def)

section \<open>Blank queries\<close>

lemma space_not_word: "is_space c \<Longrightarrow> \<not> is_word_char c"
  by (auto simp: is_space_def is_word_char_def Let_def)

lemma findall_from_no_word: "\<forall>c\<in>set s. \<not> is_word_char c \<Longrightarrow> findall_from [] s = []"
  by (induction s) auto

lemma strip_nil_iff: "strip s = [] \<longleftrightarrow> list_all is_space s"
proof
  assume "strip s = []"
  then have a: "\<forall>x\<in>set (dropWhile is_space s). is_space x"
    by (simp add: strip_def)
  have "dropWhile is_space s = []"
  proof (rule ccontr)
    assume n: "dropWhile is_space s \<noteq> []"
    then have "\<not> is_space (hd (dropWhile is_space s))" by (rule hd_dropWhile)
    moreover have "hd (dropWhile is_space s) \<in> set (dropWhile is_space s)" using n by simp
    ultimately show False using a by blast
  qed
  then show "list_all is_space s" by (simp add: list_all_iff)
next
  assume "list_all is_space s"
  then have d: "dropWhile is_space s = []" by (simp add: list_all_iff)
  show "strip s = []" unfolding strip_def d by simp
qed

lemma blank_no_terms: "strip q = [] \<Longrightarrow> filtered_terms e q = []"
proof -
  assume "strip q = []"
  then have "\<forall>c\<in>set q. is_space c" by (simp add: strip_nil_iff list_all_iff)
  moreover have "\<And>c. is_space c \<Longrightarrow> is_space (lower_char c)"
    by (auto simp: is_space_def lower_char_def Let_def)
  ultimately have "\<forall>c\<in>set (lower q). \<not> is_word_char c"
    by (auto simp: lower_def space_not_word)
  then show ?thesis
    by (simp add: filtered_terms_def findall_words_def findall_from_no_word)
qed

section \<open>Tokens as queries\<close>

lemma lower_char_idem: "lower_char (lower_char c) = lower_char c"
proof -
  define n where "n = (of_char c :: nat)"
  show ?thesis
  proof (cases "(65 \<le> n \<and> n \<le> 90) \<or> (192 \<le> n \<and> n \<le> 214) \<or> (216 \<le> n \<and> n \<le> 222)")
    case True
    have lc: "lower_char c = char_of (n + 32)"
      unfolding lower_char_def Let_def n_def [symmetric] using True by simp
    have "(n + 32) mod 256 = n + 32" using True by auto
    then have oc: "(of_char (char_of (n + 32)) :: nat) = n + 32" by simp
    have up: "\<not> ((65 \<le> n + 32 \<and> n + 32 \<le> 90) \<or> (192 \<le> n + 32 \<and> n + 32 \<le> 214) \<or>
                (216 \<le> n + 32 \<and> n + 32 \<le> 222))"
      using True by arith
    have "lower_char (char_of (n + 32)) = char_of (n + 32)"
      unfolding lower_char_def [of "char_of (n + 32)"] Let_def oc using up by simp
    then show ?thesis by (simp add: lc)
  next
    case False
    have "lower_char c = c"
      unfolding lower_char_def Let_def n_def [symmetric] using False by (simp only: if_False)
    then show ?thesis by simp
  qed
qed

lemma findall_from_tokens:
  assumes "\<forall>c\<in>set run. is_word_char c \<and> P c" and "\<forall>c\<in>set s. P c"
    and "tok \<in> set (findall_from run s)"
  shows "tok \<noteq> [] \<and> (\<forall>c\<in>set tok. is_word_char c \<and> P c)"
  using assms
proof (induction s arbitrary: run)
  case Nil
  then show ?case by (cases "run = []") auto
next
  case (Cons c cs)
  show ?case
  proof (cases "is_word_char c")
    case True
    have "\<forall>x\<in>set (c # run). is_word_char x \<and> P x" using True Cons.prems(1,2) by simp
    moreover have "\<forall>x\<in>set cs. P x" using Cons.prems(2) by simp
    moreover have "tok \<in> set (findall_from (c # run) cs)" using True Cons.prems(3) by simp
    ultimately show ?thesis by (rule Cons.IH)
  next
    case False
    have cs: "\<forall>x\<in>set cs. P x" using Cons.prems(2) by simp
    have nil: "\<forall>x\<in>set []. is_word_char x \<and> P x" by simp
    show ?thesis
    proof (cases "run = []")
      case True
      then have "tok \<in> set (findall_from [] cs)" using False Cons.prems(3) by simp
      with nil cs show ?thesis by (rule Cons.IH)
    next
      case nonempty: False
      then have "tok = rev run \<or> tok \<in> set (findall_from [] cs)"
        using False Cons.prems(3) by simp
      then show ?thesis
      proof
        assume "tok = rev run"
        then show ?thesis using nonempty Cons.prems(1) by simp
      next
        assume "tok \<in> set (findall_from [] cs)"
        with nil cs show ?thesis by (rule Cons.IH)
      qed
    qed
  qed
qed

lemma findall_from_word:
  "\<forall>c\<in>set s. is_word_char c \<Longrightarrow>
   findall_from run s = (if run = [] \<and> s = [] then [] else [rev run @ s])"
  by (induction s arbitrary: run) simp_all

lemma token_requery:
  assumes "t \<in> set (filtered_tokens e body)"
  shows "filtered_terms e t = [t]" and "strip t \<noteq> []"
proof -
  have mem: "t \<in> set (findall_from [] (lower body))"
    and keep: "t |\<notin>| stopwords e \<and> 1 < length t"
    using assms by (simp_all add: filtered_tokens_def findall_words_def Let_def)
  have fixed: "\<forall>c\<in>set (lower body). lower_char c = c"
    by (simp add: lower_def lower_char_idem)
  have nil: "\<forall>c\<in>set []. is_word_char c \<and> lower_char c = c" by simp
  have tok: "t \<noteq> [] \<and> (\<forall>c\<in>set t. is_word_char c \<and> lower_char c = c)"
    using nil fixed mem by (rule findall_from_tokens)
  then have low: "lower t = t"
    by (simp add: lower_def map_idI)
  have "findall_from [] t = [t]" using tok by (simp add: findall_from_word)
  then show "filtered_terms e t = [t]"
    using keep by (simp add: filtered_terms_def findall_words_def low)
  obtain c where "c \<in> set t" "is_word_char c" using tok by (cases t) auto
  then have "\<not> list_all is_space t" using space_not_word by (auto simp: list_all_iff)
  then show "strip t \<noteq> []" by (simp add: strip_nil_iff)
qed

section \<open>Scores of the matching documents\<close>

lemma match_loop_present:
  "\<forall>t\<in>set ts. t \<in> dom (inverted_index e) \<Longrightarrow>
   match_loop e (Some m) ts = (e, Inr (Some (foldl (\<lambda>m t. m |\<inter>| posting e t) m ts)))"
  by (induction ts arbitrary: m) (auto simp: dd_getitem_present posting_def)

lemma match_loop_first:
  "t \<in> dom (inverted_index e) \<Longrightarrow>
   match_loop e None (t # ts) = match_loop e (Some (posting e t)) ts"
  by (auto simp: dd_getitem_present posting_def)

lemma foldl_inter_member:
  "d |\<in>| foldl (\<lambda>m t. m |\<inter>| posting e t) m ts \<longleftrightarrow> d |\<in>| m \<and> (\<forall>t\<in>set ts. d |\<in>| posting e t)"
  by (induction ts arbitrary: m) auto

lemma posting_member_dom: "d |\<in>| posting e t \<Longrightarrow> t \<in> dom (inverted_index e)"
  by (auto simp: posting_def split: option.splits)

lemma posting_nonempty_dom: "posting e t \<noteq> {||} \<Longrightarrow> t \<in> dom (inverted_index e)"
  by (auto simp: posting_def split: option.splits)

lemma match_loop_all_present:
  assumes "\<forall>x\<in>set (t # ts). x \<in> dom (inverted_index e)"
  shows "match_loop e None (t # ts) =
         (e, Inr (Some (foldl (\<lambda>m x. m |\<inter>| posting e x) (posting e t) ts)))"
proof -
  have dt: "t \<in> dom (inverted_index e)" using assms by simp
  have dts: "\<forall>x\<in>set ts. x \<in> dom (inverted_index e)" using assms by simp
  show ?thesis
    unfolding match_loop_first [OF dt] using dts by (rule match_loop_present)
qed

lemma search_scores:
  assumes it: "iterates set_iter"
    and ne: "filtered_terms e query \<noteq> []"
    and all: "\<forall>t\<in>set (filtered_terms e query). d |\<in>| posting e t"
  shows "(d, s) \<in> set (returned (search set_iter e query)) \<longleftrightarrow>
         s = (\<Sum>t\<leftarrow>filtered_terms e query. freq e t d)"
proof -
  obtain t ts where ts: "filtered_terms e query = t # ts"
    using ne by (cases "filtered_terms e query") auto
  let ?m = "foldl (\<lambda>m t. m |\<inter>| posting e t) (posting e t) ts"
  have dt: "t \<in> dom (inverted_index e)"
    using all ts posting_member_dom [of d e t] by simp
  have dts: "\<forall>t\<in>set ts. t \<in> dom (inverted_index e)"
    using all ts posting_member_dom [of d e] by simp
  have ml: "match_loop e None (t # ts) = (e, Inr (Some ?m))"
    unfolding match_loop_first [OF dt] using dts by (rule match_loop_present)
  have dm: "d |\<in>| ?m" using all ts by (simp add: foldl_inter_member)
  then have mne: "?m \<noteq> {||}" by auto
  have nb: "strip query \<noteq> []" using ne blank_no_terms by blast
  have ret: "returned (search set_iter e query) =
             sort_by_score (map (\<lambda>doc. (doc, (\<Sum>t\<leftarrow>t # ts. freq e t doc))) (set_iter ?m))"
    unfolding search_def ts ml using nb mne by (simp add: rank_loop_eq)
  have "fset_of_list (set_iter ?m) = ?m" using it by (simp add: iterates_def)
  then have "d \<in> set (set_iter ?m)"
    using dm fset_of_list_elem [of d "set_iter ?m"] by simp
  then show ?thesis
    unfolding ret set_sort_by_score ts by auto
qed

lemma iterates_sorted_list: "iterates sorted_list_of_fset"
proof -
  have "distinct (sorted_list_of_fset s)" for s :: "string fset"
    by (simp add: sorted_list_of_fset.rep_eq)
  then show ?thesis by (simp add: iterates_def)
qed

section \<open>The local tally\<close>

lemma map_of_tally_add:
  "map_of (tally_add kvs t) = (map_of kvs)(t \<mapsto> tally_getitem kvs t + 1)"
  by (induction kvs t rule: tally_add.induct) (auto simp: tally_getitem_def fun_eq_iff)

lemma keys_tally_add: "set (map fst (tally_add kvs t)) = insert t (set (map fst kvs))"
  by (induction kvs t rule: tally_add.induct) auto

lemma tally_getitem_foldl:
  "tally_getitem (foldl tally_add kvs ts) k = tally_getitem kvs k + count_list ts k"
proof (induction ts arbitrary: kvs)
  case Nil
  show ?case by simp
next
  case (Cons t ts)
  have "tally_getitem (tally_add kvs t) k = tally_getitem kvs k + (if t = k then 1 else 0)"
    by (simp add: tally_getitem_def map_of_tally_add)
  then show ?case using Cons [of "tally_add kvs t"] by simp
qed

lemma keys_foldl_tally:
  "set (map fst (foldl tally_add kvs ts)) = set (map fst kvs) \<union> set ts"
  by (induction ts arbitrary: kvs) (auto simp: keys_tally_add simp del: set_map)

lemma Counter_getitem: "tally_getitem (Counter ts) k = count_list ts k"
  unfolding Counter_def tally_getitem_foldl by (simp add: tally_getitem_def)

lemma Counter_keys: "set (map fst (Counter ts)) = set ts"
  by (simp add: Counter_def keys_foldl_tally del: set_map)

section \<open>The indexing loop\<close>

lemma index_token_inverted_index:
  "inverted_index (index_token f tc e k) = (inverted_index e)(k \<mapsto> finsert f (posting e k))"
  by (auto simp: index_token_def dd_getitem_def posting_def split: option.splits prod.splits)

lemma index_token_term_frequency:
  "term_frequency (index_token f tc e k) =
     (term_frequency e)(k \<mapsto> (counters e k)(f \<mapsto> tally_getitem tc k))"
  by (auto simp: index_token_def dd_getitem_def counters_def split: option.splits prod.splits)

lemma index_token_more:
  "stopwords (index_token f tc e k) = stopwords e"
  "documents (index_token f tc e k) = documents e"
  "document_urls (index_token f tc e k) = document_urls e"
  "webpages_dir (index_token f tc e k) = webpages_dir e"
  by (auto simp: index_token_def dd_getitem_def split: option.splits prod.splits)

lemma foldl_index_token_more:
  "stopwords (foldl (index_token f tc) e ks) = stopwords e"
  "documents (foldl (index_token f tc) e ks) = documents e"
  "document_urls (foldl (index_token f tc) e ks) = document_urls e"
  "webpages_dir (foldl (index_token f tc) e ks) = webpages_dir e"
  by (induction ks arbitrary: e) (auto simp: index_token_more)

lemma foldl_index_token_inverted_index:
  "inverted_index (foldl (index_token f tc) e ks) t =
     (if t \<in> set ks then Some (finsert f (posting e t)) else inverted_index e t)"
proof (induction ks arbitrary: e)
  case Nil
  show ?case by simp
next
  case (Cons k ks)
  show ?case
    using Cons [of "index_token f tc e k"]
    by (auto simp: index_token_inverted_index posting_def)
qed

lemma foldl_index_token_term_frequency:
  "term_frequency (foldl (index_token f tc) e ks) t =
     (if t \<in> set ks then Some ((counters e t)(f \<mapsto> tally_getitem tc t)) else term_frequency e t)"
proof (induction ks arbitrary: e)
  case Nil
  show ?case by simp
next
  case (Cons k ks)
  show ?case
    using Cons [of "index_token f tc e k"]
    by (auto simp: index_token_term_frequency counters_def)
qed

lemma parse_inverted_index:
  "inverted_index (fst (parse_document e f (Some text))) t =
     (if t \<in> set (filtered_tokens e text) then Some (finsert f (posting e t))
      else inverted_index e t)"
  by (simp add: parse_document_def Let_def foldl_index_token_inverted_index Counter_keys del: set_map)

lemma parse_term_frequency:
  "term_frequency (fst (parse_document e f (Some text))) t =
     (if t \<in> set (filtered_tokens e text)
      then Some ((counters e t)(f \<mapsto> count_list (filtered_tokens e text) t))
      else term_frequency e t)"
  by (simp add: parse_document_def Let_def foldl_index_token_term_frequency Counter_keys
      Counter_getitem del: set_map)

lemma parse_more:
  "stopwords (fst (parse_document e f x)) = stopwords e"
  "documents (fst (parse_document e f x)) = documents e"
  "document_urls (fst (parse_document e f x)) = document_urls e"
  "webpages_dir (fst (parse_document e f x)) = webpages_dir e"
  by (auto simp: parse_document_def Let_def foldl_index_token_more split: option.splits)

lemma parse_None: "parse_document e f None = (e, False)"
  by (simp add: parse_document_def)

lemma snd_parse_Some: "snd (parse_document e f (Some text)) = True"
  by (simp add: parse_document_def Let_def)

section \<open>Sequences of calls\<close>

lemma parse_documents_snoc:
  "parse_documents e (calls @ [(f, x)]) = fst (parse_document (parse_documents e calls) f x)"
  by (simp add: parse_documents_def)

lemma parse_documents_Nil: "parse_documents e [] = e"
  by (simp add: parse_documents_def)

lemma parse_documents_stopwords: "stopwords (parse_documents e calls) = stopwords e"
proof (induction calls rule: rev_induct)
  case Nil
  show ?case by (simp add: parse_documents_Nil)
next
  case (snoc c calls)
  obtain f x where c: "c = (f, x)" by (cases c)
  show ?case unfolding c parse_documents_snoc by (simp add: parse_more snoc)
qed

lemma in_posting_posting: "in_posting e t d = (d |\<in>| posting e t)"
  by (simp add: in_posting_def posting_def split: option.splits)

lemma has_positive_count_counters:
  "has_positive_count e t d = (case counters e t d of Some n \<Rightarrow> 0 < n | None \<Rightarrow> False)"
  by (simp add: has_positive_count_def counters_def split: option.splits)

lemma parse_posting:
  "posting (fst (parse_document e f (Some body))) t =
     (if t \<in> set (filtered_tokens e body) then finsert f (posting e t) else posting e t)"
  unfolding posting_def [of "fst (parse_document e f (Some body))"] parse_inverted_index
  by (simp add: posting_def)

lemma parse_counters:
  "counters (fst (parse_document e f (Some body))) t =
     (if t \<in> set (filtered_tokens e body)
      then (counters e t)(f \<mapsto> count_list (filtered_tokens e body) t) else counters e t)"
  unfolding counters_def [of "fst (parse_document e f (Some body))"] parse_term_frequency
  by (simp add: counters_def)

lemma parse_keeps_consistent:
  assumes "\<And>t d. in_posting e t d = has_positive_count e t d"
  shows "in_posting (fst (parse_document e f x)) t d =
         has_positive_count (fst (parse_document e f x)) t d"
proof (cases x)
  case None
  then show ?thesis using assms by (simp add: parse_None)
next
  case (Some body)
  have old: "(d |\<in>| posting e t) = (case counters e t d of Some n \<Rightarrow> 0 < n | None \<Rightarrow> False)"
    using assms [of t d] by (simp add: in_posting_posting has_positive_count_counters)
  show ?thesis
  proof (cases "t \<in> set (filtered_tokens e body)")
    case True
    then have pos: "0 < count_list (filtered_tokens e body) t"
      using count_list_0_iff [of "filtered_tokens e body" t] by simp
    show ?thesis
      unfolding Some in_posting_posting has_positive_count_counters parse_posting parse_counters
      using True pos old by simp
  next
    case False
    show ?thesis
      unfolding Some in_posting_posting has_positive_count_counters parse_posting parse_counters
      using False old by simp
  qed
qed

lemma filtered_tokens_stopwords:
  "stopwords e = stopwords e' \<Longrightarrow> filtered_tokens e s = filtered_tokens e' s"
  by (simp add: filtered_tokens_def)

lemma parse_documents_consistent:
  "in_posting (parse_documents (init dir urls) calls) t d =
   has_positive_count (parse_documents (init dir urls) calls) t d"
proof (induction calls arbitrary: t d rule: rev_induct)
  case Nil
  show ?case
    by (simp add: parse_documents_Nil init_def in_posting_def has_positive_count_def)
next
  case (snoc c calls)
  obtain f x where c: "c = (f, x)" by (cases c)
  show ?case
    unfolding c parse_documents_snoc
    by (rule parse_keeps_consistent) (rule snoc)
qed

lemma parse_documents_counters:
  assumes "distinct (map fst calls)" and "(d, Some body) \<in> set calls"
    and "t \<in> set (filtered_tokens e0 body)"
  shows "counters (parse_documents e0 calls) t d = Some (count_list (filtered_tokens e0 body) t)"
  using assms(1,2)
proof (induction calls rule: rev_induct)
  case Nil
  then show ?case by simp
next
  case (snoc c calls)
  obtain f x where c: "c = (f, x)" by (cases c)
  let ?E = "parse_documents e0 calls"
  have toks: "filtered_tokens ?E b = filtered_tokens e0 b" for b
    by (rule filtered_tokens_stopwords) (rule parse_documents_stopwords)
  have dist: "distinct (map fst calls)" and fresh: "f \<notin> fst ` set calls"
    using snoc.prems(1) c by simp_all
  show ?case
  proof (cases "(d, Some body) = (f, x)")
    case True
    then have f: "f = d" and x: "x = Some body" by simp_all
    show ?thesis
      unfolding c parse_documents_snoc f x parse_counters toks using assms(3) by simp
  next
    case False
    then have mem: "(d, Some body) \<in> set calls" using snoc.prems(2) c by auto
    then have ne: "f \<noteq> d" using fresh by force
    have ih: "counters ?E t d = Some (count_list (filtered_tokens e0 body) t)"
      using dist mem by (rule snoc.IH)
    show ?thesis
    proof (cases x)
      case None
      then show ?thesis unfolding c parse_documents_snoc by (simp add: parse_None ih)
    next
      case (Some b)
      show ?thesis
        unfolding c parse_documents_snoc Some parse_counters using ne ih by simp
    qed
  qed
qed

lemma freq_counters: "freq e t d = (case counters e t d of Some n \<Rightarrow> n | None \<Rightarrow> 0)"
  by (simp add: freq_def counters_def counter_getitem_def split: option.splits)

section \<open>Properties of indexing\<close>

text \<open>
  C2. After any sequence of \<open>parse_document\<close> calls on a fresh engine, a document
  is in the posting set of a term if and only if the term-frequency table has an entry
  for the term and the document and that entry is positive. This holds for every
  sequence of calls, so in particular for calls on distinct documents.
\<close>

theorem index_tables_agree:
  "in_posting (parse_documents (init dir urls) calls) t d =
   has_positive_count (parse_documents (init dir urls) calls) t d"
  by (rule parse_documents_consistent)

text \<open>
  C7. The terms that \<open>search\<close> takes from a query string are the tokens that
  \<open>parse_document\<close> takes from the same string as document text: the two pipelines
  (lines 64 to 69 and lines 102 and 103) yield the same list.
\<close>

theorem normalization_shared: "filtered_terms e s = filtered_tokens e s"
  by (simp add: filtered_terms_def filtered_tokens_def)

text \<open>
  C10. Indexing the same file name with the same text a second time changes nothing:
  the engine after the second call, with its inverted index and term-frequency table,
  is the engine after the first, and the call returns the same flag.
\<close>

theorem parse_document_idempotent:
  "parse_document (fst (parse_document e filename extracted)) filename extracted =
   parse_document e filename extracted"
proof (cases extracted)
  case None
  then show ?thesis by (simp add: parse_None)
next
  case (Some body)
  let ?e1 = "fst (parse_document e filename (Some body))"
  let ?e2 = "fst (parse_document ?e1 filename (Some body))"
  have toks: "filtered_tokens ?e1 body = filtered_tokens e body"
    by (simp add: filtered_tokens_def parse_more)
  have ix: "inverted_index ?e2 = inverted_index ?e1"
    by (rule ext) (simp add: parse_inverted_index toks posting_def)
  have tf: "term_frequency ?e2 = term_frequency ?e1"
    by (rule ext) (simp add: parse_term_frequency toks counters_def)
  have "?e2 = ?e1"
    by (rule engine.equality) (simp_all add: ix tf parse_more)
  then show ?thesis
    using Some by (simp add: prod_eq_iff snd_parse_Some)
qed

section \<open>Properties of search\<close>

text \<open>
  C4. AND semantics: when the terms of a query are \<open>t1\<close> and \<open>t2\<close> (in either
  order, repeated or not), both with a non-empty posting set, and no document is in both
  sets, \<open>search\<close> returns the empty list and prints that no document matches all
  terms.
\<close>

theorem disjoint_postings_no_match:
  assumes "set (filtered_terms e query) = {t1, t2}"
    and "posting e t1 \<noteq> {||}" and "posting e t2 \<noteq> {||}"
    and "posting e t1 |\<inter>| posting e t2 = {||}"
  shows "returned (search set_iter e query) = [] \<and>
         printed (search set_iter e query) = [msg_no_documents]"
proof -
  obtain t ts where ts: "filtered_terms e query = t # ts"
    using assms(1) by (cases "filtered_terms e query") auto
  have nb: "strip query \<noteq> []" using ts blank_no_terms [of query e] by auto
  let ?m = "foldl (\<lambda>m x. m |\<inter>| posting e x) (posting e t) ts"
  have set_ts: "set (t # ts) = {t1, t2}" using assms(1) ts by simp
  have "\<forall>x\<in>set (t # ts). x \<in> dom (inverted_index e)"
    unfolding set_ts using assms(2,3) by (simp add: posting_nonempty_dom)
  then have ml: "match_loop e None (t # ts) = (e, Inr (Some ?m))"
    by (rule match_loop_all_present)
  have "d |\<notin>| ?m" for d
  proof
    assume "d |\<in>| ?m"
    then have "\<forall>x\<in>set (t # ts). d |\<in>| posting e x" by (simp add: foldl_inter_member)
    then have "d |\<in>| posting e t1 |\<inter>| posting e t2" unfolding set_ts by simp
    then show False using assms(4) by simp
  qed
  then have empty: "?m = {||}" by auto
  show ?thesis
    unfolding search_def ts ml empty using nb by simp
qed

theorem disjoint_postings_no_match_witness:
  "set (filtered_terms example_engine ''threats malware'') = {''threats'', ''malware''} \<and>
   posting example_engine ''threats'' = {|''docA''|} \<and>
   posting example_engine ''malware'' = {|''docB''|} \<and>
   returned (search sorted_list_of_fset example_engine ''threats malware'') = [] \<and>
   printed (search sorted_list_of_fset example_engine ''threats malware'') = [msg_no_documents]"
proof -
  have ft: "filtered_terms example_engine ''threats malware'' = [''threats'', ''malware'']"
    by code_simp
  have 1: "set (filtered_terms example_engine ''threats malware'') = {''threats'', ''malware''}"
    by (simp add: ft)
  have a: "posting example_engine ''threats'' = {|''docA''|}" by code_simp
  have b: "posting example_engine ''malware'' = {|''docB''|}" by code_simp
  have 2: "posting example_engine ''threats'' \<noteq> {||}" by (simp add: a)
  have 3: "posting example_engine ''malware'' \<noteq> {||}" by (simp add: b)
  have 4: "posting example_engine ''threats'' |\<inter>| posting example_engine ''malware'' = {||}"
    by (simp add: a b)
  show ?thesis
    using 1 a b disjoint_postings_no_match [OF 1 2 3 4, of sorted_list_of_fset] by simp
qed

text \<open>
  C5. When the terms of a query are \<open>pre @ t # post\<close>, every term of \<open>pre\<close> is a key
  of the inverted index and \<open>t\<close> is not, \<open>search\<close> returns the empty list and prints
  that \<open>t\<close> was not found. The terms after \<open>t\<close> play no part: the loop over all the
  terms is the loop over \<open>pre @ [t]\<close>, and the result is the same on every engine with
  the same stopwords whose index agrees on \<open>pre\<close> and \<open>t\<close>, whatever it holds for
  the later terms.
\<close>

theorem absent_term_short_circuits:
  assumes "filtered_terms e query = pre @ t # post"
    and "\<forall>p\<in>set pre. p \<in> dom (inverted_index e)"
    and "t \<notin> dom (inverted_index e)"
  shows "returned (search set_iter e query) = [] \<and>
         printed (search set_iter e query) = [msg_term_not_found t] \<and>
         match_loop e None (filtered_terms e query) = match_loop e None (pre @ [t]) \<and>
         (\<forall>e'. stopwords e' = stopwords e \<and>
               (\<forall>p\<in>set (pre @ [t]). inverted_index e' p = inverted_index e p) \<longrightarrow>
               returned (search set_iter e' query) = [] \<and>
               printed (search set_iter e' query) = [msg_term_not_found t])"
proof -
  have ne: "strip query \<noteq> []" using assms(1) blank_no_terms by fastforce
  have res: "returned (search set_iter e' query) = [] \<and>
             printed (search set_iter e' query) = [msg_term_not_found t]"
    if "stopwords e' = stopwords e"
      and "\<forall>p\<in>set (pre @ [t]). inverted_index e' p = inverted_index e p" for e'
  proof -
    have ft: "filtered_terms e' query = pre @ t # post"
      using assms(1) that(1) by (simp add: filtered_terms_def)
    have "\<forall>p\<in>set pre. p \<in> dom (inverted_index e')" using assms(2) that(2) by (auto simp: dom_def)
    moreover have "t \<notin> dom (inverted_index e')" using assms(3) that(2) by (auto simp: dom_def)
    ultimately have "match_loop e' None (pre @ t # post) = (e', Inl t)"
      by (rule match_loop_absent)
    then show ?thesis using ne ft by (simp add: search_def)
  qed
  have cut: "match_loop e None (pre @ t # post) = match_loop e None (pre @ [t])"
    using match_loop_absent [OF assms(2,3)] by simp
  show ?thesis using res [of e] res cut assms(1) by simp
qed

theorem absent_term_short_circuits_witness:
  "filtered_terms example_engine ''malware crypto'' = [''malware''] @ ''crypto'' # [] \<and>
   ''malware'' \<in> dom (inverted_index example_engine) \<and>
   ''crypto'' \<notin> dom (inverted_index example_engine) \<and>
   returned (search sorted_list_of_fset example_engine ''malware crypto'') = [] \<and>
   printed (search sorted_list_of_fset example_engine ''malware crypto'') =
     [msg_term_not_found ''crypto'']"
proof -
  have 1: "filtered_terms example_engine ''malware crypto'' = [''malware''] @ ''crypto'' # []"
    by code_simp
  have "inverted_index example_engine ''malware'' = Some {|''docB''|}" by code_simp
  then have 2: "\<forall>p\<in>set [''malware'']. p \<in> dom (inverted_index example_engine)"
    by (simp add: dom_def)
  have "inverted_index example_engine ''crypto'' = None" by code_simp
  then have 3: "''crypto'' \<notin> dom (inverted_index example_engine)"
    by (simp add: dom_def)
  show ?thesis
    using 1 2 3 absent_term_short_circuits [OF 1 2 3, of sorted_list_of_fset] by simp
qed

text \<open>
  C6. The list that \<open>search\<close> returns is in non-increasing order of score, whatever
  the order in which the matching documents were visited.
\<close>

theorem search_sorted_by_score:
  "sorted_wrt (\<lambda>a b. snd b \<le> snd a) (returned (search set_iter e query))"
  by (auto simp: search_def sort_by_score_sorted split: prod.splits sum.splits option.splits)

text \<open>
  C8. A query without terms gets the empty list and one printed line: the line for an
  empty query when the query is blank (every character is whitespace), the line for a
  query of stopwords otherwise. The two lines differ, and \<open>search\<close> is total: no
  branch of it raises.
\<close>

theorem query_without_terms:
  assumes "filtered_terms e query = []"
  shows "returned (search set_iter e query) = [] \<and>
         printed (search set_iter e query) =
           [if list_all is_space query then msg_empty_query else msg_only_stopwords] \<and>
         msg_empty_query \<noteq> msg_only_stopwords"
  using assms by (simp add: search_def strip_nil_iff msg_empty_query_def msg_only_stopwords_def)

theorem query_without_terms_witness:
  "filtered_terms (init ''webpages'' Map.empty) ''the and is'' = [] \<and>
   returned (search sorted_list_of_fset (init ''webpages'' Map.empty) ''the and is'') = [] \<and>
   printed (search sorted_list_of_fset (init ''webpages'' Map.empty) ''the and is'') =
     [msg_only_stopwords]"
proof -
  have h: "filtered_terms (init ''webpages'' Map.empty) ''the and is'' = []" by code_simp
  have nb: "\<not> list_all is_space ''the and is''" by code_simp
  show ?thesis
    using h nb query_without_terms [OF h, of sorted_list_of_fset] by simp
qed

text \<open>
  C9. \<open>search\<close> leaves the engine as it found it: the inverted index, the
  term-frequency table, the documents, the stopwords and the URL mapping after the call
  are those before it. Every subscript of the two defaultdicts is behind a membership
  test, so none of them inserts a key.
\<close>

theorem search_keeps_state: "state_after (search set_iter e query) = e"
proof -
  have "fst (match_loop e None (filtered_terms e query)) = e" by (rule match_loop_state)
  then show ?thesis
    by (auto simp: search_def rank_loop_eq split: prod.splits sum.splits option.splits)
qed

text \<open>
  C1 (as amended). Let the iteration of sets visit every element, let the query have at
  least one term and let the document be in the posting set of each of its terms. Then
  \<open>search\<close> returns the document with exactly one score: the sum of the term's count
  in the document over the list of the query's terms, one summand for each occurrence
  of a term in the query. A term repeated in the query is counted once per occurrence.
\<close>

theorem repeated_term_counted_per_occurrence:
  assumes "iterates set_iter"
    and "filtered_terms e query \<noteq> []"
    and "\<forall>t\<in>set (filtered_terms e query). d |\<in>| posting e t"
  shows "(d, s) \<in> set (returned (search set_iter e query)) \<longleftrightarrow>
         s = (\<Sum>t\<leftarrow>filtered_terms e query. freq e t d)"
  using assms by (rule search_scores)

theorem repeated_term_counted_per_occurrence_witness:
  "iterates sorted_list_of_fset \<and>
   filtered_terms example_engine ''malware malware'' = [''malware'', ''malware''] \<and>
   ''docB'' |\<in>| posting example_engine ''malware'' \<and>
   (''docB'', 2) \<in> set (returned (search sorted_list_of_fset example_engine ''malware malware''))"
proof -
  have 1: "iterates sorted_list_of_fset" by (rule iterates_sorted_list)
  have ft: "filtered_terms example_engine ''malware malware'' = [''malware'', ''malware'']"
    by code_simp
  have post: "''docB'' |\<in>| posting example_engine ''malware''" by code_simp
  have fr: "freq example_engine ''malware'' ''docB'' = 1" by code_simp
  have 2: "filtered_terms example_engine ''malware malware'' \<noteq> []" by (simp add: ft)
  have 3: "\<forall>t\<in>set (filtered_terms example_engine ''malware malware'').
             ''docB'' |\<in>| posting example_engine t"
    by (simp add: ft post)
  show ?thesis
    using 1 ft post repeated_term_counted_per_occurrence [OF 1 2 3, of 2]
    by (simp add: fr)
qed

text \<open>
  Counting a repeated term once is not what the engine does. In the example,
  \<open>malware\<close> occurs once in docB and is the only distinct term of the query
  \<open>malware malware\<close>, yet that query scores docB 2 where the query \<open>malware\<close>
  scores it 1.
\<close>

theorem repeated_term_counterexample:
  "remdups (filtered_terms example_engine ''malware malware'') = [''malware''] \<and>
   ''docB'' |\<in>| posting example_engine ''malware'' \<and>
   freq example_engine ''malware'' ''docB'' = 1 \<and>
   returned (search sorted_list_of_fset example_engine ''malware'') = [(''docB'', 1)] \<and>
   returned (search sorted_list_of_fset example_engine ''malware malware'') = [(''docB'', 2)] \<and>
   returned (search sorted_list_of_fset example_engine ''malware malware'') \<noteq>
     returned (search sorted_list_of_fset example_engine ''malware'')"
  by code_simp

text \<open>
  C3. Let the iteration of sets visit every element, and let a fresh engine index a
  sequence of documents with distinct file names. If the token stream of document
  \<open>d\<close> contains the term \<open>t\<close> exactly \<open>n\<close> times, \<open>n > 0\<close>, then \<open>search\<close>
  for \<open>t\<close> returns \<open>d\<close> with the score \<open>n\<close> and with no other score.
\<close>

theorem single_term_score:
  assumes "iterates set_iter"
    and "distinct (map fst calls)"
    and "(d, Some body) \<in> set calls"
    and "e = parse_documents (init dir urls) calls"
    and "count_list (filtered_tokens e body) t = n" and "0 < n"
  shows "(d, s) \<in> set (returned (search set_iter e t)) \<longleftrightarrow> s = n"
proof -
  have sw: "stopwords e = stopwords (init dir urls)"
    unfolding assms(4) by (rule parse_documents_stopwords)
  have toks: "filtered_tokens e body = filtered_tokens (init dir urls) body"
    using sw by (rule filtered_tokens_stopwords)
  have mem: "t \<in> set (filtered_tokens e body)"
    using assms(5,6) count_list_0_iff [of "filtered_tokens e body" t] by simp
  then have mem0: "t \<in> set (filtered_tokens (init dir urls) body)" by (simp add: toks)
  have cnt: "counters e t d = Some n"
    unfolding assms(4) parse_documents_counters [OF assms(2,3) mem0]
    using assms(5) toks by simp
  then have fr: "freq e t d = n" by (simp add: freq_counters)
  have "has_positive_count e t d"
    using cnt assms(6) by (simp add: has_positive_count_counters)
  then have "in_posting e t d"
    unfolding assms(4) by (simp add: parse_documents_consistent)
  then have post: "d |\<in>| posting e t" by (simp add: in_posting_posting)
  have ft: "filtered_terms e t = [t]" using mem by (rule token_requery(1))
  have "(d, s) \<in> set (returned (search set_iter e t)) \<longleftrightarrow>
        s = (\<Sum>t\<leftarrow>filtered_terms e t. freq e t d)"
    using assms(1) by (rule search_scores) (simp_all add: ft post)
  then show ?thesis by (simp add: ft fr)
qed

theorem single_term_score_witness:
  "iterates sorted_list_of_fset \<and>
   distinct (map fst [(''d.html'', Some ''Cloud, cloud and the CLOUD!'')]) \<and>
   (''d.html'', Some ''Cloud, cloud and the CLOUD!'') \<in>
     set [(''d.html'', Some ''Cloud, cloud and the CLOUD!'')] \<and>
   count_list
     (filtered_tokens
        (parse_documents (init ''webpages'' Map.empty)
           [(''d.html'', Some ''Cloud, cloud and the CLOUD!'')])
        ''Cloud, cloud and the CLOUD!'') ''cloud'' = 3 \<and>
   (0::nat) < 3 \<and>
   (''d.html'', 3) \<in>
     set (returned (search sorted_list_of_fset
            (parse_documents (init ''webpages'' Map.empty)
               [(''d.html'', Some ''Cloud, cloud and the CLOUD!'')]) ''cloud''))"
proof -
  let ?calls = "[(''d.html'', Some ''Cloud, cloud and the CLOUD!'')]"
  let ?e = "parse_documents (init ''webpages'' Map.empty) ?calls"
  have 1: "iterates sorted_list_of_fset" by (rule iterates_sorted_list)
  have 2: "distinct (map fst ?calls)" by simp
  have 3: "(''d.html'', Some ''Cloud, cloud and the CLOUD!'') \<in> set ?calls" by simp
  have 4: "?e = parse_documents (init ''webpages'' Map.empty) ?calls" by (rule refl)
  have 5: "count_list (filtered_tokens ?e ''Cloud, cloud and the CLOUD!'') ''cloud'' = 3"
    by code_simp
  have 6: "(0::nat) < 3" by simp
  show ?thesis
    using 1 2 3 5 6 single_term_score [OF 1 2 3 4 5 6, of 3] by simp
qed

end
